theory Spec2Isabelle
  imports Main "HOL-Library.Word" "HOL-Library.AList"
begin

section \<open>Dining philosophers with a host: data model\<close>

text \<open>
  The program is \<^verbatim>\<open>philosophers.go\<close>. Go's \<^verbatim>\<open>int\<close> is a 64-bit two's complement
  integer on the usual platforms: \<open>+\<close> and \<open>-\<close> wrap, comparisons are signed.
  Channels and chopsticks are reference values; the model names each by a natural number.
\<close>

type_synonym go_int = "64 word"
type_synonym chan_ref = nat
type_synonym chopstick_ref = nat

definition maxPhilosophers :: go_int where
  "maxPhilosophers = 5"

definition maxChopSticks :: go_int where
  "maxChopSticks = 5"

definition maxTimeToEat :: go_int where
  "maxTimeToEat = 3"

text \<open>The struct \<^verbatim>\<open>Philosopher\<close>; the field \<^verbatim>\<open>id\<close> is called \<open>id_p\<close> here.\<close>

record Philosopher =
  id_p :: go_int
  countEating :: go_int
  leftChopStick :: chopstick_ref
  rightChopStick :: chopstick_ref
  feedbackChannel :: chan_ref

record Request =
  command :: string
  philosopher :: Philosopher

definition wantToEat :: string where
  "wantToEat = ''wantToEat''"

definition finishedEating :: string where
  "finishedEating = ''finishedEating''"

section \<open>The host\<close>

text \<open>
  What the host does to the outside world: a line on the console (\<^verbatim>\<open>fmt.Printf\<close>) and a
  boolean sent on a philosopher's feedback channel.
\<close>

datatype host_output =
    PrintAccept go_int
  | PrintReject go_int string
  | SendFeedback chan_ref bool

definition RejectRequestToEat :: "Philosopher \<Rightarrow> string \<Rightarrow> host_output list" where
  "RejectRequestToEat p rejectReason =
     [PrintReject (id_p p) rejectReason, SendFeedback (feedbackChannel p) False]"

definition AcceptRequestToEat :: "Philosopher \<Rightarrow> host_output list" where
  "AcceptRequestToEat p =
     [PrintAccept (id_p p), SendFeedback (feedbackChannel p) True]"

text \<open>
  The test \<^verbatim>\<open>math.Abs(float64(asking - current)) == 1.0\<close>. The subtraction is Go's
  \<^verbatim>\<open>int\<close> subtraction and wraps. The conversion to \<^verbatim>\<open>float64\<close> is exact on every
  integer of magnitude below \<open>2 ^ 53\<close> and monotone, so the absolute value of the
  converted difference is \<open>1.0\<close> exactly when the difference is \<open>1\<close> or \<open>-1\<close>.
\<close>

definition abs_diff_is_one :: "go_int \<Rightarrow> go_int \<Rightarrow> bool" where
  "abs_diff_is_one asking current = (let d = asking - current in d = 1 \<or> d = - 1)"

text \<open>
  \<^verbatim>\<open>philosophersEating\<close> is a Go map from \<^verbatim>\<open>int\<close> to \<^verbatim>\<open>Philosopher\<close>: an association
  list with distinct keys, \<^verbatim>\<open>len\<close> its length, an assignment \<open>AList.update\<close>,
  \<^verbatim>\<open>delete\<close> \<open>AList.delete\<close>. The slice \<^verbatim>\<open>keys\<close> is read at index 0 only where the map
  has exactly one entry.
\<close>

type_synonym eating_map = "(go_int \<times> Philosopher) list"

text \<open>One turn of the host's loop: the \<^verbatim>\<open>switch\<close> on the request received.\<close>

definition Host_step :: "eating_map \<Rightarrow> Request \<Rightarrow> eating_map \<times> host_output list" where
  "Host_step philosophersEating request =
     (if command request = wantToEat then
        (if length philosophersEating = 0 then
           (AList.update (id_p (philosopher request)) (philosopher request) philosophersEating,
            AcceptRequestToEat (philosopher request))
         else if length philosophersEating = 1 then
           (let keys = map fst philosophersEating;
                philosopherCurrentlyEating = keys ! 0;
                philosopherAskingToEat = id_p (philosopher request)
            in if philosopherCurrentlyEating = 0 \<and> philosopherAskingToEat = maxPhilosophers then
                 (philosophersEating,
                  RejectRequestToEat (philosopher request) ''Neighborhood 0-'')
               else if philosopherCurrentlyEating = maxPhilosophers \<and> philosopherAskingToEat = 0 then
                 (philosophersEating,
                  RejectRequestToEat (philosopher request) ''Neiborhood -0'')
               else if abs_diff_is_one philosopherAskingToEat philosopherCurrentlyEating then
                 (philosophersEating,
                  RejectRequestToEat (philosopher request) ''Neighborhood'')
               else if philosopherAskingToEat = philosopherCurrentlyEating then
                 (philosophersEating,
                  RejectRequestToEat (philosopher request) ''Philosopher alread eating'')
               else
                 (philosophersEating, AcceptRequestToEat (philosopher request)))
         else
           (philosophersEating,
            RejectRequestToEat (philosopher request)
              ''All allowed philoshopers are already eating''))
      else if command request = finishedEating then
        (AList.delete (id_p (philosopher request)) philosophersEating, [])
      else (philosophersEating, []))"

text \<open>
  The host's loop never ends by itself; \<open>Host_loop\<close> runs it on the requests received so
  far, from a given map, and returns the map and everything the host has printed or sent.
  \<open>Host\<close> starts from the empty map, as the function \<^verbatim>\<open>Host\<close> does.
\<close>

fun Host_loop :: "eating_map \<Rightarrow> Request list \<Rightarrow> eating_map \<times> host_output list" where
  "Host_loop philosophersEating [] = (philosophersEating, [])"
| "Host_loop philosophersEating (request # requests) =
     (let (philosophersEating', out) = Host_step philosophersEating request;
          (final, outs) = Host_loop philosophersEating' requests
      in (final, out @ outs))"

definition Host :: "Request list \<Rightarrow> eating_map \<times> host_output list" where
  "Host requests = Host_loop [] requests"

text \<open>The members of the admission set are the keys of the map.\<close>

definition members :: "eating_map \<Rightarrow> go_int set" where
  "members philosophersEating = fst ` set philosophersEating"

text \<open>The booleans the host sent, with the channel of each, in order.\<close>

fun feedback_sent :: "host_output list \<Rightarrow> (chan_ref \<times> bool) list" where
  "feedback_sent [] = []"
| "feedback_sent (SendFeedback c b # out) = (c, b) # feedback_sent out"
| "feedback_sent (_ # out) = feedback_sent out"

text \<open>
  Ring adjacency as the specification words it, for comparison with what the host tests:
  two identities are adjacent when \<open>|x - y| mod 5\<close> is \<open>1\<close> or \<open>4\<close>.
\<close>

definition ring_adjacent :: "go_int \<Rightarrow> go_int \<Rightarrow> bool" where
  "ring_adjacent x y = (let d = \<bar>sint x - sint y\<bar> mod 5 in d = 1 \<or> d = 4)"

text \<open>A philosopher as \<^verbatim>\<open>main\<close> builds it: left chopstick \<open>i\<close>, right \<open>(i + 1) mod 5\<close>.\<close>

definition new_philosopher :: "nat \<Rightarrow> Philosopher" where
  "new_philosopher i =
     \<lparr>id_p = of_nat i, countEating = 0, leftChopStick = i,
      rightChopStick = (i + 1) mod 5, feedbackChannel = i\<rparr>"

definition want :: "nat \<Rightarrow> Request" where
  "want i = \<lparr>command = wantToEat, philosopher = new_philosopher i\<rparr>"

definition finished :: "nat \<Rightarrow> Request" where
  "finished i = \<lparr>command = finishedEating, philosopher = new_philosopher i\<rparr>"

text \<open>
  What the host receives from the request channel once \<^verbatim>\<open>main\<close> has closed it: the zero
  value of \<^verbatim>\<open>Request\<close>, whose command is the empty string.
\<close>

definition closed_channel_request :: Request where
  "closed_channel_request =
     \<lparr>command = '''', philosopher = \<lparr>id_p = 0, countEating = 0, leftChopStick = 0,
        rightChopStick = 0, feedbackChannel = 0\<rparr>\<rparr>"

section \<open>The philosopher\<close>

text \<open>
  What a philosopher does to the outside world, in the order of the statements of
  \<^verbatim>\<open>eat\<close>: a request sent on the request channel, the boolean received on its feedback
  channel, the two chopsticks locked and unlocked, the two lines printed around the meal,
  \<^verbatim>\<open>wg.Done()\<close>, and the closing of its feedback channel. The two sleeps are not
  modelled.
\<close>

datatype phil_action =
    SendRequest Request
  | ReceiveFeedback bool
  | Lock chopstick_ref
  | Unlock chopstick_ref
  | PrintStarting go_int go_int
  | PrintFinishing go_int go_int
  | WgDone
  | CloseFeedback chan_ref

text \<open>
  The statements of the loop of \<^verbatim>\<open>eat\<close> in their order, for given answers of the host,
  when every send, every receive and every \<^verbatim>\<open>Lock\<close> completes. This is not what \<^verbatim>\<open>eat\<close>
  does in every execution of the program: there a send or a \<^verbatim>\<open>Lock\<close> can block, a send
  on the closed request channel panics, and the process can end first. The whole program
  below keeps all of these, and what a philosopher has done there is always a beginning of
  the list given here. The result is the list of actions, the philosopher's own copy of
  its record (the receiver is passed by value, so \<^verbatim>\<open>countEating\<close> is local to the call),
  and whether the list ends with the close that follows the loop; otherwise it ends with a
  request still unanswered.
\<close>

fun eat_loop :: "Philosopher \<Rightarrow> bool list \<Rightarrow> phil_action list \<times> Philosopher \<times> bool" where
  "eat_loop ph [] =
     (if countEating ph <s 3 then
        ([SendRequest \<lparr>command = wantToEat, philosopher = ph\<rparr>], ph, False)
      else ([CloseFeedback (feedbackChannel ph)], ph, True))"
| "eat_loop ph (isPhilosopherAllowedToEat # feedback) =
     (if countEating ph <s 3 then
        (if isPhilosopherAllowedToEat then
           (let ph' = ph\<lparr>countEating := countEating ph + 1\<rparr>;
                (actions, final, returned) = eat_loop ph' feedback
            in ([SendRequest \<lparr>command = wantToEat, philosopher = ph\<rparr>,
                 ReceiveFeedback True,
                 Lock (leftChopStick ph),
                 Lock (rightChopStick ph),
                 PrintStarting (id_p ph) (countEating ph),
                 PrintFinishing (id_p ph) (countEating ph),
                 Unlock (rightChopStick ph),
                 Unlock (leftChopStick ph),
                 WgDone,
                 SendRequest \<lparr>command = finishedEating, philosopher = ph'\<rparr>]
                @ actions, final, returned))
         else
           (let (actions, final, returned) = eat_loop ph feedback
            in ([SendRequest \<lparr>command = wantToEat, philosopher = ph\<rparr>,
                 ReceiveFeedback False] @ actions, final, returned)))
      else ([CloseFeedback (feedbackChannel ph)], ph, True))"

text \<open>The statements of \<^verbatim>\<open>eat\<close>: the reset of the counter, then the loop.\<close>

definition eat :: "Philosopher \<Rightarrow> bool list \<Rightarrow> phil_action list \<times> Philosopher \<times> bool" where
  "eat ph feedback = eat_loop (ph\<lparr>countEating := 0\<rparr>) feedback"


fun admitted :: "phil_action list \<Rightarrow> nat" where
  "admitted [] = 0"
| "admitted (ReceiveFeedback b # as) = (if b then 1 else 0) + admitted as"
| "admitted (_ # as) = admitted as"

fun wg_dones :: "phil_action list \<Rightarrow> nat" where
  "wg_dones [] = 0"
| "wg_dones (WgDone # as) = Suc (wg_dones as)"
| "wg_dones (_ # as) = wg_dones as"


text \<open>The values \<^verbatim>\<open>countEating\<close> takes: 0, 1, 2 and 3.\<close>

definition count_ok :: "Philosopher \<Rightarrow> bool" where
  "count_ok ph = (countEating ph = 0 \<or> countEating ph = 1 \<or> countEating ph = 2 \<or> countEating ph = 3)"

section \<open>The whole program\<close>

text \<open>
  The goroutines of the program, \<^verbatim>\<open>main\<close>, \<^verbatim>\<open>Host\<close> and the five calls of \<^verbatim>\<open>eat\<close>,
  interleaved statement by statement. Each philosopher has a program counter, one value
  for each statement of \<^verbatim>\<open>eat\<close> that touches shared state or the counter:
  line 52 (\<open>at_reset\<close>), the loop test of line 54 (\<open>at_loop\<close>), the send of line 57, the
  receive of line 58 with the test of line 60, the two locks of lines 61 and 62, the meal of
  lines 63 to 65, the two unlocks of lines 66 and 67, the increment of line 69,
  \<^verbatim>\<open>wg.Done()\<close> of line 71, the send of line 73, the close of line 77, and the end.
\<close>

datatype phil_pc =
    at_reset
  | at_loop
  | at_send_want
  | at_receive
  | at_lock_left
  | at_lock_right
  | at_meal
  | at_unlock_right
  | at_unlock_left
  | at_increment
  | at_wg_done
  | at_send_finished
  | at_close
  | at_end

record phil_state =
  pc :: phil_pc
  self :: Philosopher

text \<open>
  The host either waits on the request channel or is blocked sending a boolean on a
  feedback channel. \<^verbatim>\<open>main\<close> is followed from \<^verbatim>\<open>wg.Wait()\<close> on: lines 124, 126, 128, and
  the return that ends the process.
\<close>

datatype host_pc = receiving | sending chan_ref bool

datatype main_pc = at_wait | at_close_requests | at_println | exited

datatype main_action = WaitReturned | CloseRequestChan | PrintGoodBye

text \<open>
  The state: the philosophers' goroutines, the mutex of each chopstick (\<open>True\<close> when
  locked), which feedback channels are closed, the host's map and position, the counter of
  the wait group, whether the request channel is closed, the position of \<^verbatim>\<open>main\<close>,
  whether the program has panicked, and the history of what has been done, latest first.
  The history is an observation only: no step reads it.
\<close>

datatype event =
    PhilDid nat phil_action
  | HostDid host_output
  | MainDid main_action
  | Panic

record program =
  philosophers :: "phil_state list"
  chopSticks :: "chopstick_ref \<Rightarrow> bool"
  feedbackClosed :: "chan_ref \<Rightarrow> bool"
  philosophersEating :: eating_map
  host :: host_pc
  wg :: int
  requestChanClosed :: bool
  main :: main_pc
  panicked :: bool
  history :: "event list"

text \<open>
  The state in which \<^verbatim>\<open>main\<close> reaches \<^verbatim>\<open>wg.Wait()\<close>: five chopsticks, five philosophers,
  \<^verbatim>\<open>wg.Add(maxPhilosophers * maxTimeToEat)\<close>, an open request channel, the host and the
  philosophers started. A goroutine runs only after its \<^verbatim>\<open>go\<close> statement, so every
  execution of the program is an execution from this state in which the goroutines have
  taken no step yet.
\<close>

definition spawned :: "nat \<Rightarrow> phil_state" where
  "spawned i = \<lparr>pc = at_reset, self = new_philosopher i\<rparr>"

definition initial :: program where
  "initial =
     \<lparr>philosophers = map spawned [0 ..< unat maxPhilosophers],
      chopSticks = (\<lambda>c. False),
      feedbackClosed = (\<lambda>c. False),
      philosophersEating = [],
      host = receiving,
      wg = sint (maxPhilosophers * maxTimeToEat),
      requestChanClosed = False,
      main = at_wait,
      panicked = False,
      history = []\<rparr>"

text \<open>
  Channels are unbuffered: a send and the matching receive happen together. When a
  philosopher sends a request while the host waits on the request channel, the host runs
  one turn of its loop on it; the turn ends with the host back at the receive, or blocked
  in the send of \<^verbatim>\<open>AcceptRequestToEat\<close> or \<^verbatim>\<open>RejectRequestToEat\<close>. A send on the closed
  request channel panics. While the host is busy the philosopher stays blocked: the state
  does not change.
\<close>

fun host_next :: "host_output list \<Rightarrow> host_pc" where
  "host_next [] = receiving"
| "host_next (SendFeedback c b # out) = sending c b"
| "host_next (_ # out) = host_next out"

definition host_receive :: "Request \<Rightarrow> program \<Rightarrow> program" where
  "host_receive request s =
     (let (philosophersEating', out) = Host_step (philosophersEating s) request
      in s\<lparr>philosophersEating := philosophersEating',
            host := host_next out,
            history := map HostDid (rev out) @ history s\<rparr>)"

definition send_request :: "nat \<Rightarrow> Request \<Rightarrow> phil_pc \<Rightarrow> program \<Rightarrow> program" where
  "send_request i request next_pc s =
     (if requestChanClosed s then
        s\<lparr>panicked := True, history := Panic # history s\<rparr>
      else if host s = receiving then
        host_receive request
          (s\<lparr>philosophers := (philosophers s)[i := (philosophers s ! i)\<lparr>pc := next_pc\<rparr>],
              history := PhilDid i (SendRequest request) # history s\<rparr>)
      else s)"

text \<open>
  A philosopher moves to its next statement, having done the given actions.
\<close>

definition goto :: "nat \<Rightarrow> phil_pc \<Rightarrow> phil_action list \<Rightarrow> program \<Rightarrow> program" where
  "goto i next_pc actions s =
     s\<lparr>philosophers := (philosophers s)[i := (philosophers s ! i)\<lparr>pc := next_pc\<rparr>],
        history := map (PhilDid i) (rev actions) @ history s\<rparr>"

text \<open>
  One statement of philosopher \<open>i\<close>, when it can run. A receive needs the host blocked
  in a send on this philosopher's feedback channel (a receive on a closed channel yields
  \<^verbatim>\<open>false\<close> at once); \<^verbatim>\<open>Lock\<close> needs the chopstick unlocked; \<^verbatim>\<open>wg.Done()\<close> panics when
  the counter would become negative.
\<close>

definition phil_try :: "nat \<Rightarrow> program \<Rightarrow> program" where
  "phil_try i s =
     (if length (philosophers s) \<le> i then s
      else
        let ph = self (philosophers s ! i) in
        case pc (philosophers s ! i) of
          at_reset \<Rightarrow>
            s\<lparr>philosophers := (philosophers s)[i :=
                 \<lparr>pc = at_loop, self = ph\<lparr>countEating := 0\<rparr>\<rparr>]\<rparr>
        | at_loop \<Rightarrow>
            goto i (if countEating ph <s 3 then at_send_want else at_close) [] s
        | at_send_want \<Rightarrow>
            send_request i \<lparr>command = wantToEat, philosopher = ph\<rparr> at_receive s
        | at_receive \<Rightarrow>
            (if feedbackClosed s (feedbackChannel ph) then
               goto i at_loop [ReceiveFeedback False] s
             else
               (case host s of
                  sending c isPhilosopherAllowedToEat \<Rightarrow>
                    if c = feedbackChannel ph then
                      goto i (if isPhilosopherAllowedToEat then at_lock_left else at_loop)
                        [ReceiveFeedback isPhilosopherAllowedToEat]
                        (s\<lparr>host := receiving\<rparr>)
                    else s
                | receiving \<Rightarrow> s))
        | at_lock_left \<Rightarrow>
            (if chopSticks s (leftChopStick ph) then s
             else goto i at_lock_right [Lock (leftChopStick ph)]
                    (s\<lparr>chopSticks := (chopSticks s)(leftChopStick ph := True)\<rparr>))
        | at_lock_right \<Rightarrow>
            (if chopSticks s (rightChopStick ph) then s
             else goto i at_meal [Lock (rightChopStick ph)]
                    (s\<lparr>chopSticks := (chopSticks s)(rightChopStick ph := True)\<rparr>))
        | at_meal \<Rightarrow>
            goto i at_unlock_right
              [PrintStarting (id_p ph) (countEating ph),
               PrintFinishing (id_p ph) (countEating ph)] s
        | at_unlock_right \<Rightarrow>
            goto i at_unlock_left [Unlock (rightChopStick ph)]
              (s\<lparr>chopSticks := (chopSticks s)(rightChopStick ph := False)\<rparr>)
        | at_unlock_left \<Rightarrow>
            goto i at_increment [Unlock (leftChopStick ph)]
              (s\<lparr>chopSticks := (chopSticks s)(leftChopStick ph := False)\<rparr>)
        | at_increment \<Rightarrow>
            s\<lparr>philosophers := (philosophers s)[i :=
                 \<lparr>pc = at_wg_done, self = ph\<lparr>countEating := countEating ph + 1\<rparr>\<rparr>]\<rparr>
        | at_wg_done \<Rightarrow>
            (if wg s - 1 < 0 then
               s\<lparr>wg := wg s - 1, panicked := True, history := Panic # history s\<rparr>
             else goto i at_send_finished [WgDone] (s\<lparr>wg := wg s - 1\<rparr>))
        | at_send_finished \<Rightarrow>
            send_request i \<lparr>command = finishedEating, philosopher = ph\<rparr> at_loop s
        | at_close \<Rightarrow>
            goto i at_end [CloseFeedback (feedbackChannel ph)]
              (s\<lparr>feedbackClosed := (feedbackClosed s)(feedbackChannel ph := True)\<rparr>)
        | at_end \<Rightarrow> s)"

text \<open>
  The host on its own: on the closed request channel its receive yields the zero request
  at once; a send on a closed feedback channel panics. Its other moves happen together with
  a philosopher's send or receive.
\<close>

definition host_try :: "program \<Rightarrow> program" where
  "host_try s =
     (case host s of
        receiving \<Rightarrow>
          if requestChanClosed s then host_receive closed_channel_request s else s
      | sending c b \<Rightarrow>
          if feedbackClosed s c then s\<lparr>panicked := True, history := Panic # history s\<rparr>
          else s)"

text \<open>
  \<^verbatim>\<open>main\<close>: \<^verbatim>\<open>wg.Wait()\<close> returns only when the counter is zero; then the request channel
  is closed, the last line printed, and the process ends.
\<close>

definition main_try :: "program \<Rightarrow> program" where
  "main_try s =
     (case main s of
        at_wait \<Rightarrow>
          if wg s = 0 then
            s\<lparr>main := at_close_requests, history := MainDid WaitReturned # history s\<rparr>
          else s
      | at_close_requests \<Rightarrow>
          s\<lparr>requestChanClosed := True, main := at_println,
             history := MainDid CloseRequestChan # history s\<rparr>
      | at_println \<Rightarrow>
          s\<lparr>main := exited, history := MainDid PrintGoodBye # history s\<rparr>
      | exited \<Rightarrow> s)"

text \<open>
  A schedule is the list of the goroutines chosen to move, in order. After a panic or
  the return of \<^verbatim>\<open>main\<close> nothing moves.
\<close>

datatype thread = PhilT nat | HostT | MainT

definition step :: "thread \<Rightarrow> program \<Rightarrow> program" where
  "step t s =
     (if panicked s \<or> main s = exited then s
      else case t of PhilT i \<Rightarrow> phil_try i s | HostT \<Rightarrow> host_try s | MainT \<Rightarrow> main_try s)"

fun run :: "thread list \<Rightarrow> program \<Rightarrow> program" where
  "run [] s = s"
| "run (t # ts) s = run ts (step t s)"

text \<open>
  The number of \<^verbatim>\<open>wg.Done()\<close> calls in a history, and the actions of one philosopher in
  a history, earliest first.
\<close>

fun is_decrement :: "event \<Rightarrow> bool" where
  "is_decrement (PhilDid i WgDone) = True"
| "is_decrement _ = False"

definition decrements :: "event list \<Rightarrow> nat" where
  "decrements h = length (filter is_decrement h)"

fun actions_of :: "nat \<Rightarrow> event list \<Rightarrow> phil_action list" where
  "actions_of i [] = []"
| "actions_of i (PhilDid j a # h) = (if j = i then actions_of i h @ [a] else actions_of i h)"
| "actions_of i (_ # h) = actions_of i h"

text \<open>
  A schedule in which every philosopher in turn runs \<^verbatim>\<open>eat\<close> to its end (36 statements
  when every request is accepted), and \<^verbatim>\<open>main\<close> then returns from \<^verbatim>\<open>wg.Wait()\<close> and
  closes the request channel.
\<close>

definition alone :: "nat \<Rightarrow> thread list" where
  "alone i = replicate 36 (PhilT i)"

definition one_by_one :: "thread list" where
  "one_by_one = alone 0 @ alone 1 @ alone 2 @ alone 3 @ alone 4 @ [MainT, MainT]"

text \<open>
  The invariant of the program. For each philosopher, the values \<^verbatim>\<open>countEating\<close> can
  have at each statement, and the number of \<^verbatim>\<open>wg.Done()\<close> calls it has made: its count,
  less one between the increment and \<^verbatim>\<open>wg.Done()\<close>.
\<close>

definition pc_ok :: "phil_state \<Rightarrow> bool" where
  "pc_ok st =
     (let c = countEating (self st) in
      case pc st of
        at_reset \<Rightarrow> c = 0
      | at_loop \<Rightarrow> c = 0 \<or> c = 1 \<or> c = 2 \<or> c = 3
      | at_wg_done \<Rightarrow> c = 1 \<or> c = 2 \<or> c = 3
      | at_send_finished \<Rightarrow> c = 1 \<or> c = 2 \<or> c = 3
      | at_close \<Rightarrow> c = 3
      | at_end \<Rightarrow> c = 3
      | _ \<Rightarrow> c = 0 \<or> c = 1 \<or> c = 2)"

definition dones_of :: "phil_state \<Rightarrow> nat" where
  "dones_of st =
     (case pc st of
        at_wg_done \<Rightarrow> unat (countEating (self st)) - 1
      | _ \<Rightarrow> unat (countEating (self st)))"

definition total :: "program \<Rightarrow> nat" where
  "total s = sum_list (map dones_of (philosophers s))"

definition inv :: "program \<Rightarrow> bool" where
  "inv s \<longleftrightarrow>
     length (philosophers s) = 5 \<and>
     (\<forall>st \<in> set (philosophers s). pc_ok st) \<and>
     wg s + int (total s) = 15 \<and>
     decrements (history s) = total s \<and>
     (main s \<noteq> at_wait \<longrightarrow> wg s = 0) \<and>
     (requestChanClosed s \<longrightarrow> main s = at_println \<or> main s = exited)"

text \<open>
  The link between a philosopher in the whole program and \<^verbatim>\<open>eat\<close> run on its own. The
  answers a philosopher has received are read off its actions. \<open>tail_of\<close> is what the loop
  does when it is entered with no answer left: the next request, or the close. \<open>meal_of\<close>
  is the part of the loop body after an accepted request. For a philosopher at a given
  statement, \<open>rest_of\<close> is what \<^verbatim>\<open>eat\<close> still does up to its next wait for an answer, and
  \<open>final_of\<close> the record it has there. \<open>link\<close> says that the actions done so far, followed
  by \<open>rest_of\<close>, are the actions of \<^verbatim>\<open>eat\<close> on the answers received so far.
\<close>

fun feedback_of :: "phil_action list \<Rightarrow> bool list" where
  "feedback_of [] = []"
| "feedback_of (ReceiveFeedback b # as) = b # feedback_of as"
| "feedback_of (_ # as) = feedback_of as"

definition tail_of :: "Philosopher \<Rightarrow> phil_action list" where
  "tail_of ph =
     (if countEating ph <s 3 then [SendRequest \<lparr>command = wantToEat, philosopher = ph\<rparr>]
      else [CloseFeedback (feedbackChannel ph)])"

definition meal_of :: "Philosopher \<Rightarrow> phil_action list" where
  "meal_of ph =
     [Lock (leftChopStick ph),
      Lock (rightChopStick ph),
      PrintStarting (id_p ph) (countEating ph),
      PrintFinishing (id_p ph) (countEating ph),
      Unlock (rightChopStick ph),
      Unlock (leftChopStick ph),
      WgDone,
      SendRequest \<lparr>command = finishedEating,
        philosopher = ph\<lparr>countEating := countEating ph + 1\<rparr>\<rparr>]"

definition final_of :: "phil_state \<Rightarrow> Philosopher" where
  "final_of st =
     (let ph = self st in
      case pc st of
        at_reset \<Rightarrow> ph\<lparr>countEating := 0\<rparr>
      | at_lock_left \<Rightarrow> ph\<lparr>countEating := countEating ph + 1\<rparr>
      | at_lock_right \<Rightarrow> ph\<lparr>countEating := countEating ph + 1\<rparr>
      | at_meal \<Rightarrow> ph\<lparr>countEating := countEating ph + 1\<rparr>
      | at_unlock_right \<Rightarrow> ph\<lparr>countEating := countEating ph + 1\<rparr>
      | at_unlock_left \<Rightarrow> ph\<lparr>countEating := countEating ph + 1\<rparr>
      | at_increment \<Rightarrow> ph\<lparr>countEating := countEating ph + 1\<rparr>
      | _ \<Rightarrow> ph)"

definition rest_of :: "phil_state \<Rightarrow> phil_action list" where
  "rest_of st =
     (let ph = self st in
      case pc st of
        at_reset \<Rightarrow> tail_of (final_of st)
      | at_loop \<Rightarrow> tail_of ph
      | at_send_want \<Rightarrow> [SendRequest \<lparr>command = wantToEat, philosopher = ph\<rparr>]
      | at_receive \<Rightarrow> []
      | at_lock_left \<Rightarrow> meal_of ph @ tail_of (final_of st)
      | at_lock_right \<Rightarrow> drop 1 (meal_of ph) @ tail_of (final_of st)
      | at_meal \<Rightarrow> drop 2 (meal_of ph) @ tail_of (final_of st)
      | at_unlock_right \<Rightarrow> drop 4 (meal_of ph) @ tail_of (final_of st)
      | at_unlock_left \<Rightarrow> drop 5 (meal_of ph) @ tail_of (final_of st)
      | at_increment \<Rightarrow> drop 6 (meal_of ph) @ tail_of (final_of st)
      | at_wg_done \<Rightarrow>
          [WgDone, SendRequest \<lparr>command = finishedEating, philosopher = ph\<rparr>] @ tail_of ph
      | at_send_finished \<Rightarrow>
          [SendRequest \<lparr>command = finishedEating, philosopher = ph\<rparr>] @ tail_of ph
      | at_close \<Rightarrow> [CloseFeedback (feedbackChannel ph)]
      | at_end \<Rightarrow> [])"

definition link :: "nat \<Rightarrow> program \<Rightarrow> bool" where
  "link i s \<longleftrightarrow>
     (let st = philosophers s ! i; acts = actions_of i (history s)
      in eat (new_philosopher i) (feedback_of acts) =
           (acts @ rest_of st, final_of st, \<not> countEating (final_of st) <s 3))"

text \<open>
  A schedule in which philosopher \<open>0\<close> runs alone up to the send that follows its first
  meal.
\<close>

definition first_meal :: "thread list" where
  "first_meal = replicate 12 (PhilT 0)"






section \<open>Properties of the host\<close>

lemma length_delete_le: "length (AList.delete k s) \<le> length s"
  by (simp add: AList.delete_eq)

lemma Host_step_length: "length s \<le> 1 \<Longrightarrow> length (fst (Host_step s r)) \<le> 1"
  using length_delete_le [of "id_p (philosopher r)" s]
  by (simp add: Host_step_def Let_def)

lemma Host_loop_length: "length s \<le> 1 \<Longrightarrow> length (fst (Host_loop s rs)) \<le> 1"
proof (induction rs arbitrary: s)
  case Nil
  then show ?case by simp
next
  case (Cons r rs)
  from Cons.prems have "length (fst (Host_step s r)) \<le> 1" by (rule Host_step_length)
  then have "length (fst (Host_loop (fst (Host_step s r)) rs)) \<le> 1" by (rule Cons.IH)
  then show ?case by (simp add: split_beta Let_def)
qed

lemma Host_length: "length (fst (Host rs)) \<le> 1"
  unfolding Host_def by (rule Host_loop_length) simp

lemma card_members_le: "card (members s) \<le> length s"
  unfolding members_def by (metis card_image_le card_length le_trans List.finite_set)

lemma members_le_1: "length s \<le> 1 \<Longrightarrow> x \<in> members s \<Longrightarrow> y \<in> members s \<Longrightarrow> x = y"
  by (cases s) (auto simp: members_def)

lemma ring_adjacent_irrefl: "\<not> ring_adjacent x x"
  by (simp add: ring_adjacent_def)


lemma members_delete: "members (AList.delete k s) = members s - {k}"
  by (induction s) (auto simp: members_def)

lemma delete_absent: "k \<notin> members s \<Longrightarrow> AList.delete k s = s"
  unfolding members_def by simp

text \<open>
  With one member \<open>y\<close> in the map, the host decides the request of \<open>x\<close> by ring
  adjacency and equality for every pair of identities below 5 except \<open>0\<close>, \<open>4\<close>.
\<close>

lemma below_5: "(x :: nat) < 5 \<Longrightarrow> x = 0 \<or> x = 1 \<or> x = 2 \<or> x = 3 \<or> x = 4"
  by arith

lemma Host_single_member_decision:
  assumes "x < 5" and "y < 5" and "(x, y) \<noteq> (0, 4)" and "(x, y) \<noteq> (4, 0)"
    and "id_p q = of_nat x"
  shows "feedback_sent (snd (Host_step [(of_nat y, p)] \<lparr>command = wantToEat, philosopher = q\<rparr>)) =
           [(feedbackChannel q, \<not> (ring_adjacent (of_nat x) (of_nat y) \<or> x = y))]"
  using below_5 [OF assms(1)] below_5 [OF assms(2)] assms(3,4,5)
  by (elim disjE)
    (simp_all add: Host_step_def maxPhilosophers_def
      abs_diff_is_one_def AcceptRequestToEat_def RejectRequestToEat_def ring_adjacent_def)

text \<open>
  Claim C1. With exactly one member \<open>Y\<close> in the admission set, a want-to-eat request of
  \<open>X\<close> should be rejected exactly when \<open>X\<close> and \<open>Y\<close> are ring-adjacent or equal. The
  host tests the wraparound pair against \<open>maxPhilosophers = 5\<close>, an identity no philosopher
  has, so the pair \<open>0\<close>, \<open>4\<close> passes every test: with \<open>0\<close> eating the request of \<open>4\<close>
  is accepted, and with \<open>4\<close> eating the request of \<open>0\<close> is accepted, although the two
  are ring-adjacent.
\<close>

theorem Host_wraparound_pair_admitted:
  "ring_adjacent 4 0 \<and>
   Host_step [(0, new_philosopher 0)] (want 4) =
     ([(0, new_philosopher 0)], [PrintAccept 4, SendFeedback 4 True]) \<and>
   ring_adjacent 0 4 \<and>
   Host_step [(4, new_philosopher 4)] (want 0) =
     ([(4, new_philosopher 4)], [PrintAccept 0, SendFeedback 0 True])"
  by (simp add: ring_adjacent_def Host_step_def want_def new_philosopher_def wantToEat_def
      maxPhilosophers_def abs_diff_is_one_def AcceptRequestToEat_def)

text \<open>
  Claim C2. After want-to-eat of \<open>0\<close> and of \<open>2\<close> from the empty map, both accepted, the
  map should hold two members and a request of \<open>3\<close> should be rejected for capacity. The
  branch that accepts a second philosopher does not store it: the map still holds \<open>0\<close>
  alone, and the request of \<open>3\<close> is accepted.
\<close>

theorem Host_third_eater_admitted:
  "fst (Host [want 0, want 2]) = [(0, new_philosopher 0)] \<and>
   feedback_sent (snd (Host [want 0, want 2])) = [(0, True), (2, True)] \<and>
   length (fst (Host [want 0, want 2])) = 1 \<and>
   Host_step (fst (Host [want 0, want 2])) (want 3) =
     ([(0, new_philosopher 0)], [PrintAccept 3, SendFeedback 3 True])"
  by (simp add: Host_def Host_step_def want_def new_philosopher_def wantToEat_def
      maxPhilosophers_def abs_diff_is_one_def AcceptRequestToEat_def)

text \<open>
  Claim C3. Whatever requests the host has processed from the empty map, the admission set
  has at most one member; a want-to-eat request accepted while the map has exactly one
  entry leaves the map as it is; and a want-to-eat request changes the map only when the
  map is empty.
\<close>

theorem Host_admission_set_at_most_one:
  "card (members (fst (Host requests))) \<le> 1 \<and>
   length (fst (Host requests)) \<le> 1 \<and>
   (length s = 1 \<and> command r = wantToEat \<and>
      feedback_sent (snd (Host_step s r)) = [(feedbackChannel (philosopher r), True)]
    \<longrightarrow> fst (Host_step s r) = s) \<and>
   (command r = wantToEat \<and> fst (Host_step s r) \<noteq> s \<longrightarrow> s = [])"
proof -
  have "card (members (fst (Host requests))) \<le> 1"
    using card_members_le [of "fst (Host requests)"] Host_length [of requests] by simp
  moreover have "length (fst (Host requests)) \<le> 1"
    by (rule Host_length)
  moreover have "length s = 1 \<and> command r = wantToEat \<longrightarrow> fst (Host_step s r) = s"
    by (simp add: Host_step_def Let_def)
  moreover have "command r = wantToEat \<and> fst (Host_step s r) \<noteq> s \<longrightarrow> s = []"
    by (simp add: Host_step_def Let_def split: if_splits)
  ultimately show ?thesis by blast
qed

theorem Host_admission_set_at_most_one_witness:
  "length [(0 :: go_int, new_philosopher 0)] = 1 \<and> command (want 2) = wantToEat \<and>
   feedback_sent (snd (Host_step [(0, new_philosopher 0)] (want 2))) =
     [(feedbackChannel (philosopher (want 2)), True)] \<and>
   fst (Host_step [(0, new_philosopher 0)] (want 2)) = [(0, new_philosopher 0)] \<and>
   card (members (fst (Host [want 0, want 2]))) \<le> 1 \<and>
   command (want 0) = wantToEat \<and> fst (Host_step [] (want 0)) \<noteq> []"
  using Host_admission_set_at_most_one [of "[want 0, want 2]" "[(0, new_philosopher 0)]" "want 2"]
    Host_admission_set_at_most_one [of "[want 0, want 2]" "[]" "want 0"]
  by (simp add: Host_step_def want_def new_philosopher_def wantToEat_def
      maxPhilosophers_def abs_diff_is_one_def AcceptRequestToEat_def)

text \<open>
  Claim C4. Whatever requests the host has processed from the empty map, no two members of
  the admission set are ring-adjacent; in particular \<open>0\<close> and \<open>1\<close> are never members
  together, nor are \<open>4\<close> and \<open>0\<close>.
\<close>

theorem Host_no_adjacent_members:
  "(x \<in> members (fst (Host requests)) \<and> y \<in> members (fst (Host requests))
      \<longrightarrow> \<not> ring_adjacent x y) \<and>
   \<not> {0, 1} \<subseteq> members (fst (Host requests)) \<and>
   \<not> {4, 0} \<subseteq> members (fst (Host requests))"
proof -
  have one: "\<And>a b. a \<in> members (fst (Host requests)) \<Longrightarrow> b \<in> members (fst (Host requests)) \<Longrightarrow> a = b"
    using members_le_1 [OF Host_length] by blast
  have "x \<in> members (fst (Host requests)) \<and> y \<in> members (fst (Host requests))
      \<longrightarrow> \<not> ring_adjacent x y"
    using one [of x y] ring_adjacent_irrefl by blast
  moreover have "\<not> {0, 1} \<subseteq> members (fst (Host requests))"
    using one [of 0 1] by auto
  moreover have "\<not> {4, 0} \<subseteq> members (fst (Host requests))"
    using one [of 4 0] by auto
  ultimately show ?thesis by blast
qed

theorem Host_no_adjacent_members_witness:
  "0 \<in> members (fst (Host [want 0, want 1, want 4])) \<and> \<not> ring_adjacent 0 0 \<and>
   \<not> {0, 1} \<subseteq> members (fst (Host [want 0, want 1, want 4])) \<and>
   \<not> {4, 0} \<subseteq> members (fst (Host [want 0, want 1, want 4]))"
  using Host_no_adjacent_members [of 0 "[want 0, want 1, want 4]" 0]
  by (simp add: Host_def Host_step_def want_def new_philosopher_def wantToEat_def
      maxPhilosophers_def abs_diff_is_one_def AcceptRequestToEat_def RejectRequestToEat_def
      members_def)

text \<open>
  Claim C5. Whatever requests the host has processed from the empty map, the admission set
  has at most two members.
\<close>

theorem Host_admission_set_at_most_two:
  "card (members (fst (Host requests))) \<le> 2 \<and> length (fst (Host requests)) \<le> 2"
  using card_members_le [of "fst (Host requests)"] Host_length [of requests] by simp

lemma Host_step_want_output:
  "command r = wantToEat \<Longrightarrow>
   snd (Host_step s r) = AcceptRequestToEat (philosopher r) \<or>
   (\<exists>reason. snd (Host_step s r) = RejectRequestToEat (philosopher r) reason)"
  by (auto simp: Host_step_def Let_def)

lemma feedback_sent_Accept:
  "feedback_sent (AcceptRequestToEat p) = [(feedbackChannel p, True)]"
  by (simp add: AcceptRequestToEat_def)

lemma feedback_sent_Reject:
  "feedback_sent (RejectRequestToEat p reason) = [(feedbackChannel p, False)]"
  by (simp add: RejectRequestToEat_def)

text \<open>
  Claim C6. Processing a want-to-eat request, in any state of the map, goes through
  exactly one of \<open>AcceptRequestToEat\<close> and \<open>RejectRequestToEat\<close>, and sends exactly one
  boolean, on the feedback channel of the philosopher in the request.
\<close>

theorem Host_exactly_one_reply:
  "command r = wantToEat \<Longrightarrow>
   (snd (Host_step s r) = AcceptRequestToEat (philosopher r) \<and>
    feedback_sent (snd (Host_step s r)) = [(feedbackChannel (philosopher r), True)]) \<or>
   ((\<exists>reason. snd (Host_step s r) = RejectRequestToEat (philosopher r) reason) \<and>
    feedback_sent (snd (Host_step s r)) = [(feedbackChannel (philosopher r), False)])"
  using Host_step_want_output [of r s] feedback_sent_Accept feedback_sent_Reject
  by metis

theorem Host_exactly_one_reply_witness:
  "command (want 1) = wantToEat \<and>
   feedback_sent (snd (Host_step [] (want 1))) = [(1, True)] \<and>
   feedback_sent (snd (Host_step [(0, new_philosopher 0)] (want 1))) = [(1, False)]"
  using Host_exactly_one_reply [of "want 1" "[(0, new_philosopher 0)]"]
    Host_exactly_one_reply [of "want 1" "[]"]
  by (simp add: Host_step_def want_def new_philosopher_def wantToEat_def
      maxPhilosophers_def abs_diff_is_one_def AcceptRequestToEat_def RejectRequestToEat_def)

text \<open>
  Claim C7. Processing finished-eating of \<open>X\<close>, in any state of the map, removes \<open>X\<close>
  and nothing else from the admission set and sends nothing; when \<open>X\<close> is not a member the
  map is unchanged, and processing the same request again changes nothing more.
\<close>

theorem Host_finishedEating_removes:
  "command r = finishedEating \<Longrightarrow>
   id_p (philosopher r) \<notin> members (fst (Host_step s r)) \<and>
   members (fst (Host_step s r)) = members s - {id_p (philosopher r)} \<and>
   snd (Host_step s r) = [] \<and>
   (id_p (philosopher r) \<notin> members s \<longrightarrow> fst (Host_step s r) = s) \<and>
   Host_step (fst (Host_step s r)) r = Host_step s r"
  by (simp add: Host_step_def wantToEat_def finishedEating_def members_delete delete_absent
      AList.delete_idem)

theorem Host_finishedEating_removes_witness:
  "command (finished 2) = finishedEating \<and>
   Host_step [(0, new_philosopher 0)] (finished 0) = ([], []) \<and>
   id_p (philosopher (finished 2)) \<notin> members [(0, new_philosopher 0)] \<and>
   Host_step [(0, new_philosopher 0)] (finished 2) = ([(0, new_philosopher 0)], [])"
  using Host_finishedEating_removes [of "finished 2" "[(0, new_philosopher 0)]"]
    Host_finishedEating_removes [of "finished 0" "[(0, new_philosopher 0)]"]
  by (simp add: Host_step_def finished_def new_philosopher_def wantToEat_def finishedEating_def
      members_def)

text \<open>
  Claim C10. A want-to-eat request removes no member and no entry of the map and adds at
  most the requester; a finished-eating request adds no member, removes at most the
  requester and keeps every other entry; a request with any other command leaves the map
  unchanged and sends nothing.
\<close>

theorem Host_frame:
  "(command r = wantToEat \<longrightarrow>
      members s \<subseteq> members (fst (Host_step s r)) \<and>
      members (fst (Host_step s r)) \<subseteq> insert (id_p (philosopher r)) (members s) \<and>
      (\<forall>k v. map_of s k = Some v \<longrightarrow> map_of (fst (Host_step s r)) k = Some v)) \<and>
   (command r = finishedEating \<longrightarrow>
      members (fst (Host_step s r)) \<subseteq> members s \<and>
      members s - {id_p (philosopher r)} \<subseteq> members (fst (Host_step s r)) \<and>
      (\<forall>k. k \<noteq> id_p (philosopher r) \<longrightarrow> map_of (fst (Host_step s r)) k = map_of s k)) \<and>
   (command r \<noteq> wantToEat \<and> command r \<noteq> finishedEating \<longrightarrow>
      Host_step s r = (s, []))"
proof -
  have "command r = wantToEat \<longrightarrow>
      members s \<subseteq> members (fst (Host_step s r)) \<and>
      members (fst (Host_step s r)) \<subseteq> insert (id_p (philosopher r)) (members s) \<and>
      (\<forall>k v. map_of s k = Some v \<longrightarrow> map_of (fst (Host_step s r)) k = Some v)"
    by (auto simp: Host_step_def Let_def members_def)
  moreover have "command r = finishedEating \<longrightarrow>
      members (fst (Host_step s r)) \<subseteq> members s \<and>
      members s - {id_p (philosopher r)} \<subseteq> members (fst (Host_step s r)) \<and>
      (\<forall>k. k \<noteq> id_p (philosopher r) \<longrightarrow> map_of (fst (Host_step s r)) k = map_of s k)"
    by (auto simp: Host_step_def wantToEat_def finishedEating_def members_delete
        AList.delete_conv)
  moreover have "command r \<noteq> wantToEat \<and> command r \<noteq> finishedEating \<longrightarrow>
      Host_step s r = (s, [])"
    by (simp add: Host_step_def)
  ultimately show ?thesis by blast
qed

theorem Host_frame_witness:
  "command (want 2) = wantToEat \<and>
   members (fst (Host_step [] (want 2))) = {2} \<and>
   members (fst (Host_step [(0, new_philosopher 0)] (want 2))) = {0} \<and>
   command (finished 0) = finishedEating \<and>
   members (fst (Host_step [(0, new_philosopher 0)] (finished 0))) = {} \<and>
   command closed_channel_request \<noteq> wantToEat \<and>
   command closed_channel_request \<noteq> finishedEating \<and>
   Host_step [(0, new_philosopher 0)] closed_channel_request = ([(0, new_philosopher 0)], [])"
  using Host_frame [of "want 2" "[]"] Host_frame [of "want 2" "[(0, new_philosopher 0)]"]
    Host_frame [of "finished 0" "[(0, new_philosopher 0)]"]
    Host_frame [of closed_channel_request "[(0, new_philosopher 0)]"]
  by (simp add: Host_step_def want_def finished_def closed_channel_request_def
      new_philosopher_def wantToEat_def finishedEating_def members_def
      maxPhilosophers_def abs_diff_is_one_def)

section \<open>Properties of the statements of eat\<close>



lemma word_cmp:
  "(0 :: go_int) <s 3" "(1 :: go_int) <s 3" "(2 :: go_int) <s 3" "\<not> (3 :: go_int) <s 3"
  by (simp_all add: word_sless_alt)

lemma count_ok_cases:
  assumes "count_ok ph"
  obtains "countEating ph = 0" | "countEating ph = 1" | "countEating ph = 2" | "countEating ph = 3"
  using assms unfolding count_ok_def by blast

lemma count_ok_step:
  "count_ok ph \<Longrightarrow> countEating ph <s 3 \<Longrightarrow> count_ok (ph\<lparr>countEating := countEating ph + 1\<rparr>)"
  by (erule count_ok_cases) (simp_all add: count_ok_def word_cmp)


lemma exit_count: "count_ok ph \<Longrightarrow> \<not> countEating ph <s 3 \<Longrightarrow> countEating ph = 3"
  by (erule count_ok_cases) (simp_all add: word_cmp)


lemma eat_loop_count_ok: "count_ok ph \<Longrightarrow> count_ok (fst (snd (eat_loop ph fb)))"
proof (induction fb arbitrary: ph)
  case Nil
  then show ?case by simp
next
  case (Cons b fb)
  then show ?case
    by (simp add: split_beta Let_def count_ok_step)
qed



lemma eat_loop_nonempty: "fst (eat_loop ph fb) \<noteq> []"
  by (cases fb) (simp_all add: split_beta Let_def)



lemma eat_loop_wg_dones: "wg_dones (fst (eat_loop ph fb)) = admitted (fst (eat_loop ph fb))"
  by (induction fb arbitrary: ph) (simp_all add: split_beta Let_def)

lemma split_after:
  "x \<notin> set B \<Longrightarrow> B @ R = pre @ x # post \<Longrightarrow> \<exists>p. pre = B @ p \<and> R = p @ x # post"
proof (induction B arbitrary: pre)
  case Nil
  then show ?case by simp
next
  case (Cons b B)
  from Cons.prems obtain pre' where pre: "pre = b # pre'" and rest: "B @ R = pre' @ x # post"
    by (auto simp: Cons_eq_append_conv)
  from Cons.IH [OF _ rest] Cons.prems(1) obtain p where "pre' = B @ p" "R = p @ x # post"
    by auto
  with pre show ?case by simp
qed

lemma eat_loop_wg_done_placed:
  "fst (eat_loop ph fb) = pre @ WgDone # post \<Longrightarrow>
   (\<exists>pre'. pre = pre' @ [Unlock (rightChopStick ph), Unlock (leftChopStick ph)]) \<and>
   (\<exists>q post'. post = SendRequest \<lparr>command = finishedEating, philosopher = q\<rparr> # post')"
proof (induction fb arbitrary: ph pre)
  case Nil
  then show ?case by (auto simp: Cons_eq_append_conv split: if_splits)
next
  case (Cons b fb)
  show ?case
  proof (cases "countEating ph <s 3")
    case False
    with Cons.prems show ?thesis by (auto simp: Cons_eq_append_conv)
  next
    case enter: True
    show ?thesis
    proof (cases b)
      case False
      let ?B = "[SendRequest \<lparr>command = wantToEat, philosopher = ph\<rparr>, ReceiveFeedback False]"
      from Cons.prems enter False
      have "?B @ fst (eat_loop ph fb) = pre @ WgDone # post"
        by (simp add: split_beta Let_def)
      from split_after [OF _ this] obtain p
        where pre: "pre = ?B @ p" and rest: "fst (eat_loop ph fb) = p @ WgDone # post"
        by auto
      from Cons.IH [OF rest] pre show ?thesis by auto
    next
      case True
      let ?ph' = "ph\<lparr>countEating := countEating ph + 1\<rparr>"
      let ?B = "[SendRequest \<lparr>command = wantToEat, philosopher = ph\<rparr>,
                 ReceiveFeedback True,
                 Lock (leftChopStick ph),
                 Lock (rightChopStick ph),
                 PrintStarting (id_p ph) (countEating ph),
                 PrintFinishing (id_p ph) (countEating ph),
                 Unlock (rightChopStick ph),
                 Unlock (leftChopStick ph)]"
      let ?F = "SendRequest \<lparr>command = finishedEating, philosopher = ?ph'\<rparr>"
      from Cons.prems enter True
      have "?B @ (WgDone # ?F # fst (eat_loop ?ph' fb)) = pre @ WgDone # post"
        by (simp add: split_beta Let_def)
      from split_after [OF _ this] obtain p
        where pre: "pre = ?B @ p"
          and rest: "WgDone # ?F # fst (eat_loop ?ph' fb) = p @ WgDone # post"
        by auto
      show ?thesis
      proof (cases p)
        case Nil
        with pre rest show ?thesis by auto
      next
        case (Cons a p')
        with rest have a: "a = WgDone" and r2: "[?F] @ fst (eat_loop ?ph' fb) = p' @ WgDone # post"
          by auto
        from split_after [OF _ r2] obtain p2
          where p': "p' = [?F] @ p2" and r3: "fst (eat_loop ?ph' fb) = p2 @ WgDone # post"
          by auto
        from Cons.IH [OF r3] obtain pre' q post'
          where "p2 = pre' @ [Unlock (rightChopStick ph), Unlock (leftChopStick ph)]"
            and "post = SendRequest \<lparr>command = finishedEating, philosopher = q\<rparr> # post'"
          by auto
        with pre Cons a p' show ?thesis by auto
      qed
    qed
  qed
qed


section \<open>Properties of the whole program\<close>

lemma decrements_simps:
  "decrements [] = 0"
  "decrements (e # h) = (if is_decrement e then 1 else 0) + decrements h"
  by (simp_all add: decrements_def)

lemma decrements_HostDid: "decrements (map HostDid out @ h) = decrements h"
  by (induction out) (simp_all add: decrements_simps)

lemma sum_list_map_update:
  "i < length xs \<Longrightarrow>
   sum_list (map f (xs[i := y])) + f (xs ! i) = sum_list (map f xs) + (f y :: nat)"
  by (induction xs arbitrary: i) (auto split: nat.splits)

lemma pc_ok_update:
  "\<forall>st \<in> set xs. pc_ok st \<Longrightarrow> pc_ok y \<Longrightarrow> \<forall>st \<in> set (xs[i := y]). pc_ok st"
  using set_update_subset_insert [of xs i y] by blast

lemma pc_ok_dones: "pc_ok st \<Longrightarrow> dones_of st \<le> 3"
  by (auto simp: pc_ok_def dones_of_def Let_def split: phil_pc.splits)

lemma pc_ok_dones_pending: "pc_ok st \<Longrightarrow> pc st = at_wg_done \<Longrightarrow> dones_of st \<le> 2"
  by (auto simp: pc_ok_def dones_of_def Let_def)

lemma sum_dones_le: "\<forall>st \<in> set xs. pc_ok st \<Longrightarrow> sum_list (map dones_of xs) \<le> 3 * length xs"
proof (induction xs)
  case Nil
  then show ?case by simp
next
  case (Cons x xs)
  then have "dones_of x \<le> 3" and "sum_list (map dones_of xs) \<le> 3 * length xs"
    using pc_ok_dones [of x] by simp_all
  then show ?case by simp
qed

lemma sum_dones_less:
  "\<forall>st \<in> set xs. pc_ok st \<Longrightarrow> i < length xs \<Longrightarrow> pc (xs ! i) = at_wg_done \<Longrightarrow>
   sum_list (map dones_of xs) < 3 * length xs"
proof (induction xs arbitrary: i)
  case Nil
  then show ?case by simp
next
  case (Cons x xs)
  have rest: "sum_list (map dones_of xs) \<le> 3 * length xs"
    using Cons.prems(1) by (simp add: sum_dones_le)
  have x3: "dones_of x \<le> 3" using Cons.prems(1) pc_ok_dones [of x] by simp
  show ?case
  proof (cases i)
    case 0
    with Cons.prems have "dones_of x \<le> 2" using pc_ok_dones_pending [of x] by simp
    with rest show ?thesis by simp
  next
    case (Suc j)
    with Cons.prems have "sum_list (map dones_of xs) < 3 * length xs"
      using Cons.IH [of j] by simp
    with x3 show ?thesis by simp
  qed
qed

lemma host_receive_frame:
  "philosophers (host_receive r s) = philosophers s \<and>
   wg (host_receive r s) = wg s \<and>
   main (host_receive r s) = main s \<and>
   requestChanClosed (host_receive r s) = requestChanClosed s \<and>
   decrements (history (host_receive r s)) = decrements (history s)"
  by (simp add: host_receive_def split_beta decrements_HostDid)

lemma phil_try_frame:
  "length (philosophers (phil_try i s)) = length (philosophers s) \<and>
   main (phil_try i s) = main s \<and>
   requestChanClosed (phil_try i s) = requestChanClosed s"
  by (simp add: phil_try_def goto_def send_request_def host_receive_frame Let_def
      split: phil_pc.splits host_pc.splits)

lemma phil_try_local:
  assumes i: "i < length (philosophers s)"
    and ok: "pc_ok (philosophers s ! i)"
    and pc: "pc (philosophers s ! i) \<noteq> at_wg_done"
  shows "philosophers (phil_try i s) = (philosophers s)[i := philosophers (phil_try i s) ! i] \<and>
         pc_ok (philosophers (phil_try i s) ! i) \<and>
         dones_of (philosophers (phil_try i s) ! i) = dones_of (philosophers s ! i) \<and>
         wg (phil_try i s) = wg s \<and>
         decrements (history (phil_try i s)) = decrements (history s)"
proof (cases "pc (philosophers s ! i)")
  case at_wg_done
  with pc show ?thesis by simp
next
  case at_loop
  with i ok show ?thesis
    by (auto simp: phil_try_def goto_def Let_def pc_ok_def dones_of_def word_cmp decrements_simps)
next
  case at_receive
  with i ok show ?thesis
    by (auto simp: phil_try_def goto_def Let_def pc_ok_def dones_of_def decrements_simps
        split: host_pc.splits)
qed (use i ok in \<open>auto simp: phil_try_def goto_def send_request_def host_receive_frame Let_def
      pc_ok_def dones_of_def decrements_simps\<close>)

lemma phil_try_done:
  assumes i: "i < length (philosophers s)"
    and ok: "pc_ok (philosophers s ! i)"
    and pc: "pc (philosophers s ! i) = at_wg_done"
    and wg: "1 \<le> wg s"
  shows "philosophers (phil_try i s) = (philosophers s)[i := philosophers (phil_try i s) ! i] \<and>
         pc_ok (philosophers (phil_try i s) ! i) \<and>
         dones_of (philosophers (phil_try i s) ! i) = Suc (dones_of (philosophers s ! i)) \<and>
         wg (phil_try i s) = wg s - 1 \<and>
         decrements (history (phil_try i s)) = Suc (decrements (history s))"
  using assms
  by (auto simp: phil_try_def goto_def Let_def pc_ok_def dones_of_def decrements_simps)

lemma inv_phil_try:
  assumes "inv s"
  shows "inv (phil_try i s)"
proof (cases "i < length (philosophers s)")
  case False
  with assms show ?thesis by (simp add: phil_try_def)
next
  case i: True
  let ?s' = "phil_try i s"
  let ?st = "philosophers s ! i"
  let ?st' = "philosophers ?s' ! i"
  from assms have len: "length (philosophers s) = 5"
    and oks: "\<forall>st \<in> set (philosophers s). pc_ok st"
    and bal: "wg s + int (total s) = 15"
    and dec: "decrements (history s) = total s"
    and waited: "main s \<noteq> at_wait \<longrightarrow> wg s = 0"
    and closed: "requestChanClosed s \<longrightarrow> main s = at_println \<or> main s = exited"
    by (simp_all add: inv_def)
  from oks i have ok: "pc_ok ?st" by simp
  have frame: "length (philosophers ?s') = length (philosophers s)"
    "main ?s' = main s" "requestChanClosed ?s' = requestChanClosed s"
    using phil_try_frame [of i s] by simp_all
  show ?thesis
  proof (cases "pc ?st = at_wg_done")
    case False
    from phil_try_local [OF i ok False]
    have upd: "philosophers ?s' = (philosophers s)[i := ?st']"
      and ok': "pc_ok ?st'" and same: "dones_of ?st' = dones_of ?st"
      and wg': "wg ?s' = wg s" and dec': "decrements (history ?s') = decrements (history s)"
      by simp_all
    have "total ?s' + dones_of ?st = total s + dones_of ?st'"
      unfolding total_def using sum_list_map_update [OF i, of dones_of ?st'] upd by simp
    with same have tot: "total ?s' = total s" by simp
    have oks': "\<forall>st \<in> set (philosophers ?s'). pc_ok st"
      using pc_ok_update [OF oks ok', of i] upd by simp
    from len oks' tot bal dec waited closed frame wg' dec' show ?thesis
      by (simp add: inv_def)
  next
    case True
    have "total s < 3 * length (philosophers s)"
      unfolding total_def using oks i True by (rule sum_dones_less)
    with len bal have wg1: "1 \<le> wg s" by simp
    with waited have wait: "main s = at_wait" by auto
    from phil_try_done [OF i ok True wg1]
    have upd: "philosophers ?s' = (philosophers s)[i := ?st']"
      and ok': "pc_ok ?st'" and more: "dones_of ?st' = Suc (dones_of ?st)"
      and wg': "wg ?s' = wg s - 1" and dec': "decrements (history ?s') = Suc (decrements (history s))"
      by simp_all
    have "total ?s' + dones_of ?st = total s + dones_of ?st'"
      unfolding total_def using sum_list_map_update [OF i, of dones_of ?st'] upd by simp
    with more have tot: "total ?s' = Suc (total s)" by simp
    have oks': "\<forall>st \<in> set (philosophers ?s'). pc_ok st"
      using pc_ok_update [OF oks ok', of i] upd by simp
    from len oks' tot bal dec wait closed frame wg' dec' show ?thesis
      by (simp add: inv_def)
  qed
qed

lemma inv_host_try: "inv s \<Longrightarrow> inv (host_try s)"
  by (simp add: inv_def host_try_def total_def host_receive_frame decrements_simps
      split: host_pc.splits)

lemma inv_main_try: "inv s \<Longrightarrow> inv (main_try s)"
  by (auto simp: inv_def main_try_def total_def decrements_simps split: main_pc.splits)

lemma inv_step: "inv s \<Longrightarrow> inv (step t s)"
  by (cases t) (simp_all add: step_def inv_phil_try inv_host_try inv_main_try)

lemma inv_run: "inv s \<Longrightarrow> inv (run ts s)"
  by (induction ts arbitrary: s) (simp_all add: inv_step)

lemma upt_5: "[0 ..< 5] = [0, 1, 2, 3, 4]"
  by code_simp

lemma inv_initial: "inv initial"
  by (simp add: inv_def initial_def total_def maxPhilosophers_def maxTimeToEat_def upt_5
      spawned_def new_philosopher_def pc_ok_def dones_of_def decrements_simps)

lemma closed_after_all_meals:
  "requestChanClosed (run ts initial) \<Longrightarrow>
   wg (run ts initial) = 0 \<and> decrements (history (run ts initial)) = 15"
  using inv_run [OF inv_initial, of ts] by (auto simp: inv_def)

lemma run_alone_agrees_with_eat:
  "actions_of 0 (history (run (alone 0) initial)) =
     fst (eat (new_philosopher 0) [True, True, True])"
  by code_simp

lemma feedback_of_append: "feedback_of (xs @ ys) = feedback_of xs @ feedback_of ys"
  by (induction xs rule: feedback_of.induct) simp_all

lemma eat_loop_Nil: "eat_loop ph [] = (tail_of ph, ph, \<not> countEating ph <s 3)"
  by (simp add: tail_of_def)

lemma eat_loop_waiting:
  "\<not> snd (snd (eat_loop ph fb)) \<Longrightarrow>
   countEating (fst (snd (eat_loop ph fb))) <s 3 \<and>
   fst (eat_loop ph fb) =
     butlast (fst (eat_loop ph fb)) @
     [SendRequest \<lparr>command = wantToEat, philosopher = fst (snd (eat_loop ph fb))\<rparr>]"
proof (induction fb arbitrary: ph)
  case Nil
  then show ?case by (simp split: if_splits)
next
  case (Cons b fb)
  show ?case
    using Cons.prems Cons.IH [of ph] Cons.IH [of "ph\<lparr>countEating := countEating ph + 1\<rparr>"]
      eat_loop_nonempty [of ph fb]
      eat_loop_nonempty [of "ph\<lparr>countEating := countEating ph + 1\<rparr>" fb]
    by (simp add: split_beta Let_def butlast_append split: if_splits)
qed

lemma eat_loop_more:
  "\<not> snd (snd (eat_loop ph fb)) \<Longrightarrow>
   eat_loop ph (fb @ fb') =
     (butlast (fst (eat_loop ph fb)) @ fst (eat_loop (fst (snd (eat_loop ph fb))) fb'),
      snd (eat_loop (fst (snd (eat_loop ph fb))) fb'))"
proof (induction fb arbitrary: ph)
  case Nil
  then show ?case by (simp split: if_splits)
next
  case (Cons b fb)
  show ?case
    using Cons.prems Cons.IH [of ph] Cons.IH [of "ph\<lparr>countEating := countEating ph + 1\<rparr>"]
      eat_loop_nonempty [of ph fb]
      eat_loop_nonempty [of "ph\<lparr>countEating := countEating ph + 1\<rparr>" fb]
    by (simp add: split_beta Let_def butlast_append split: if_splits)
qed

lemma eat_loop_answer:
  assumes "eat_loop ph fb = (acts, p, False)"
  shows "eat_loop ph (fb @ [b]) =
     (if b then
        (acts @ ReceiveFeedback True # meal_of p @ tail_of (p\<lparr>countEating := countEating p + 1\<rparr>),
         p\<lparr>countEating := countEating p + 1\<rparr>,
         \<not> countEating (p\<lparr>countEating := countEating p + 1\<rparr>) <s 3)
      else
        (acts @ ReceiveFeedback False # tail_of p, p, \<not> countEating p <s 3))"
proof -
  from assms have nr: "\<not> snd (snd (eat_loop ph fb))" by simp
  from eat_loop_waiting [OF nr] assms
  have lt: "countEating p <s 3"
    and acts: "acts = butlast acts @ [SendRequest \<lparr>command = wantToEat, philosopher = p\<rparr>]"
    by simp_all
  have "eat_loop ph (fb @ [b]) = (butlast acts @ fst (eat_loop p [b]), snd (eat_loop p [b]))"
    using eat_loop_more [OF nr, of "[b]"] assms by simp
  moreover have "butlast acts @ SendRequest \<lparr>command = wantToEat, philosopher = p\<rparr> # xs = acts @ xs"
    for xs using acts by (metis append_Cons append_Nil append_assoc)
  ultimately show ?thesis using lt
    by (simp add: split_beta Let_def meal_of_def tail_of_def)
qed

lemma actions_of_own: "actions_of i (map (PhilDid i) (rev as) @ h) = actions_of i h @ as"
  by (induction as rule: rev_induct) simp_all

lemma actions_of_other: "j \<noteq> i \<Longrightarrow> actions_of i (map (PhilDid j) as @ h) = actions_of i h"
  by (induction as) simp_all

lemma actions_of_HostDid: "actions_of i (map HostDid out @ h) = actions_of i h"
  by (induction out) simp_all

lemma host_receive_actions:
  "actions_of i (history (host_receive r s)) = actions_of i (history s)"
  by (simp add: host_receive_def split_beta actions_of_HostDid)

lemma link_advance:
  assumes l: "link i s"
    and st': "philosophers s' ! i = st'"
    and acts: "actions_of i (history s') = actions_of i (history s) @ as"
    and fb: "feedback_of as = []"
    and rest: "rest_of (philosophers s ! i) = as @ rest_of st'"
    and final: "final_of st' = final_of (philosophers s ! i)"
  shows "link i s'"
  using assms by (simp add: link_def Let_def feedback_of_append)

lemma link_receive:
  assumes l: "link i s"
    and pc: "pc (philosophers s ! i) = at_receive"
    and lt: "countEating (self (philosophers s ! i)) <s 3"
    and st': "philosophers s' ! i =
        (philosophers s ! i)\<lparr>pc := if b then at_lock_left else at_loop\<rparr>"
    and acts: "actions_of i (history s') = actions_of i (history s) @ [ReceiveFeedback b]"
  shows "link i s'"
proof -
  let ?p = "self (philosophers s ! i)"
  let ?acts = "actions_of i (history s)"
  from l pc lt
  have "eat_loop ((new_philosopher i)\<lparr>countEating := 0\<rparr>) (feedback_of ?acts) = (?acts, ?p, False)"
    by (simp add: link_def Let_def eat_def rest_of_def final_of_def)
  from eat_loop_answer [OF this, of b] st' acts pc show ?thesis
    by (simp add: link_def Let_def eat_def rest_of_def final_of_def feedback_of_append)
qed

lemma link_phil_try_self:
  assumes i: "i < length (philosophers s)"
    and ok: "pc_ok (philosophers s ! i)"
    and l: "link i s"
  shows "link i (phil_try i s)"
proof (cases "pc (philosophers s ! i)")
  case at_reset
  show ?thesis
    by (rule link_advance [OF l refl, of _ "[]"])
      (use i at_reset in \<open>simp_all add: phil_try_def Let_def rest_of_def final_of_def\<close>)
next
  case at_loop
  show ?thesis
    by (rule link_advance [OF l refl, of _ "[]"])
      (use i at_loop in \<open>simp_all add: phil_try_def goto_def Let_def rest_of_def final_of_def
         tail_of_def\<close>)
next
  case at_send_want
  show ?thesis
  proof (cases "requestChanClosed s \<or> host s \<noteq> receiving")
    case True
    show ?thesis
      by (rule link_advance [OF l refl, of _ "[]"])
        (use i at_send_want True in \<open>auto simp: phil_try_def send_request_def Let_def\<close>)
  next
    case False
    show ?thesis
      by (rule link_advance [OF l refl,
            of _ "[SendRequest \<lparr>command = wantToEat, philosopher = self (philosophers s ! i)\<rparr>]"])
        (use i at_send_want False in \<open>simp_all add: phil_try_def send_request_def Let_def
           host_receive_actions host_receive_frame rest_of_def final_of_def\<close>)
  qed
next
  case at_receive
  from ok at_receive have lt: "countEating (self (philosophers s ! i)) <s 3"
    by (auto simp: pc_ok_def Let_def word_cmp)
  let ?ch = "feedbackChannel (self (philosophers s ! i))"
  consider (closed) "feedbackClosed s ?ch"
    | (answer) b where "\<not> feedbackClosed s ?ch" "host s = sending ?ch b"
    | (blocked) "\<not> feedbackClosed s ?ch" "\<forall>b. host s \<noteq> sending ?ch b"
    by blast
  then show ?thesis
  proof cases
    case closed
    show ?thesis
      by (rule link_receive [OF l at_receive lt, of _ False])
        (use i at_receive closed in \<open>simp_all add: phil_try_def goto_def Let_def\<close>)
  next
    case answer
    show ?thesis
      by (rule link_receive [OF l at_receive lt, of _ b])
        (use i at_receive answer in \<open>simp_all add: phil_try_def goto_def Let_def\<close>)
  next
    case blocked
    then have "phil_try i s = s"
      using i at_receive by (auto simp: phil_try_def Let_def split: host_pc.splits)
    with l show ?thesis by simp
  qed
next
  case at_lock_left
  show ?thesis
  proof (cases "chopSticks s (leftChopStick (self (philosophers s ! i)))")
    case True
    with i at_lock_left have "phil_try i s = s" by (simp add: phil_try_def Let_def)
    with l show ?thesis by simp
  next
    case False
    show ?thesis
      by (rule link_advance [OF l refl, of _ "[Lock (leftChopStick (self (philosophers s ! i)))]"])
        (use i at_lock_left False in \<open>simp_all add: phil_try_def goto_def Let_def
           rest_of_def final_of_def meal_of_def\<close>)
  qed
next
  case at_lock_right
  show ?thesis
  proof (cases "chopSticks s (rightChopStick (self (philosophers s ! i)))")
    case True
    with i at_lock_right have "phil_try i s = s" by (simp add: phil_try_def Let_def)
    with l show ?thesis by simp
  next
    case False
    show ?thesis
      by (rule link_advance [OF l refl, of _ "[Lock (rightChopStick (self (philosophers s ! i)))]"])
        (use i at_lock_right False in \<open>simp_all add: phil_try_def goto_def Let_def
           rest_of_def final_of_def meal_of_def\<close>)
  qed
next
  case at_meal
  let ?p = "self (philosophers s ! i)"
  show ?thesis
    by (rule link_advance [OF l refl,
          of _ "[PrintStarting (id_p ?p) (countEating ?p), PrintFinishing (id_p ?p) (countEating ?p)]"])
      (use i at_meal in \<open>simp_all add: phil_try_def goto_def Let_def
         rest_of_def final_of_def meal_of_def\<close>)
next
  case at_unlock_right
  show ?thesis
    by (rule link_advance [OF l refl, of _ "[Unlock (rightChopStick (self (philosophers s ! i)))]"])
      (use i at_unlock_right in \<open>simp_all add: phil_try_def goto_def Let_def
         rest_of_def final_of_def meal_of_def\<close>)
next
  case at_unlock_left
  show ?thesis
    by (rule link_advance [OF l refl, of _ "[Unlock (leftChopStick (self (philosophers s ! i)))]"])
      (use i at_unlock_left in \<open>simp_all add: phil_try_def goto_def Let_def
         rest_of_def final_of_def meal_of_def\<close>)
next
  case at_increment
  show ?thesis
    by (rule link_advance [OF l refl, of _ "[]"])
      (use i at_increment in \<open>simp_all add: phil_try_def Let_def rest_of_def final_of_def
         meal_of_def\<close>)
next
  case at_wg_done
  show ?thesis
  proof (cases "wg s - 1 < 0")
    case True
    show ?thesis
      by (rule link_advance [OF l refl, of _ "[]"])
        (use i at_wg_done True in \<open>simp_all add: phil_try_def Let_def\<close>)
  next
    case False
    show ?thesis
      by (rule link_advance [OF l refl, of _ "[WgDone]"])
        (use i at_wg_done False in \<open>simp_all add: phil_try_def goto_def Let_def
           rest_of_def final_of_def\<close>)
  qed
next
  case at_send_finished
  show ?thesis
  proof (cases "requestChanClosed s \<or> host s \<noteq> receiving")
    case True
    show ?thesis
      by (rule link_advance [OF l refl, of _ "[]"])
        (use i at_send_finished True in \<open>auto simp: phil_try_def send_request_def Let_def\<close>)
  next
    case False
    show ?thesis
      by (rule link_advance [OF l refl,
            of _ "[SendRequest \<lparr>command = finishedEating, philosopher = self (philosophers s ! i)\<rparr>]"])
        (use i at_send_finished False in \<open>simp_all add: phil_try_def send_request_def Let_def
           host_receive_actions host_receive_frame rest_of_def final_of_def\<close>)
  qed
next
  case at_close
  show ?thesis
    by (rule link_advance [OF l refl,
          of _ "[CloseFeedback (feedbackChannel (self (philosophers s ! i)))]"])
      (use i at_close in \<open>simp_all add: phil_try_def goto_def Let_def rest_of_def final_of_def\<close>)
next
  case at_end
  with i have "phil_try i s = s" by (simp add: phil_try_def Let_def)
  with l show ?thesis by simp
qed

lemma link_cong:
  "link i s \<Longrightarrow> philosophers s' ! i = philosophers s ! i \<Longrightarrow>
   actions_of i (history s') = actions_of i (history s) \<Longrightarrow> link i s'"
  by (simp add: link_def)

lemma phil_try_other:
  "j \<noteq> i \<Longrightarrow>
   philosophers (phil_try j s) ! i = philosophers s ! i \<and>
   actions_of i (history (phil_try j s)) = actions_of i (history s)"
  by (simp add: phil_try_def goto_def send_request_def host_receive_frame
      host_receive_actions Let_def split: phil_pc.splits host_pc.splits)

lemma host_try_other:
  "philosophers (host_try s) = philosophers s \<and>
   actions_of i (history (host_try s)) = actions_of i (history s)"
  by (simp add: host_try_def host_receive_frame host_receive_actions split: host_pc.splits)

lemma main_try_other:
  "philosophers (main_try s) = philosophers s \<and>
   actions_of i (history (main_try s)) = actions_of i (history s)"
  by (simp add: main_try_def split: main_pc.splits)

lemma link_step:
  assumes "inv s" and i: "i < 5" and l: "link i s"
  shows "link i (step t s)"
proof (cases "panicked s \<or> main s = exited")
  case True
  with l show ?thesis by (simp add: step_def)
next
  case False
  from assms have len: "i < length (philosophers s)" and ok: "pc_ok (philosophers s ! i)"
    by (simp_all add: inv_def)
  show ?thesis
  proof (cases t)
    case (PhilT j)
    show ?thesis
    proof (cases "j = i")
      case True
      with PhilT False link_phil_try_self [OF len ok l] show ?thesis by (simp add: step_def)
    next
      case other: False
      from link_cong [OF l] phil_try_other [OF other, of s] have "link i (phil_try j s)" by simp
      with PhilT False show ?thesis by (simp add: step_def)
    qed
  next
    case HostT
    from link_cong [OF l] host_try_other [of s i] have "link i (host_try s)" by simp
    with HostT False show ?thesis by (simp add: step_def)
  next
    case MainT
    from link_cong [OF l] main_try_other [of s i] have "link i (main_try s)" by simp
    with MainT False show ?thesis by (simp add: step_def)
  qed
qed

lemma link_run: "inv s \<Longrightarrow> i < 5 \<Longrightarrow> link i s \<Longrightarrow> link i (run ts s)"
  by (induction ts arbitrary: s) (simp_all add: inv_step link_step)

lemma link_initial: "i < 5 \<Longrightarrow> link i initial"
  by (simp add: link_def initial_def maxPhilosophers_def spawned_def eat_def
      rest_of_def final_of_def tail_of_def new_philosopher_def)

lemma run_follows_eat:
  assumes "i < 5"
  shows "\<exists>rest. fst (eat (new_philosopher i) (feedback_of (actions_of i (history (run ts initial))))) =
           actions_of i (history (run ts initial)) @ rest"
  using link_run [OF inv_initial assms link_initial [OF assms], of ts]
  by (simp add: link_def Let_def)

lemma run_wg_done_placed:
  assumes i: "i < 5" and split: "actions_of i (history (run ts initial)) = pre @ WgDone # post"
  shows "(\<exists>pre'. pre = pre' @ [Unlock (rightChopStick (new_philosopher i)),
                              Unlock (leftChopStick (new_philosopher i))]) \<and>
         (post = [] \<or>
          (\<exists>q post'. post = SendRequest \<lparr>command = finishedEating, philosopher = q\<rparr> # post'))"
proof -
  let ?fb = "feedback_of (actions_of i (history (run ts initial)))"
  from run_follows_eat [OF i, of ts] split obtain rest
    where "fst (eat (new_philosopher i) ?fb) = pre @ WgDone # (post @ rest)"
    by auto
  then have "fst (eat_loop ((new_philosopher i)\<lparr>countEating := 0\<rparr>) ?fb) = pre @ WgDone # (post @ rest)"
    by (simp add: eat_def)
  from eat_loop_wg_done_placed [OF this]
  obtain pre' q post' where pre: "pre = pre' @ [Unlock (rightChopStick (new_philosopher i)),
                              Unlock (leftChopStick (new_philosopher i))]"
    and post: "post @ rest = SendRequest \<lparr>command = finishedEating, philosopher = q\<rparr> # post'"
    by auto
  from post have "post = [] \<or>
          (\<exists>post''. post = SendRequest \<lparr>command = finishedEating, philosopher = q\<rparr> # post'')"
    by (cases post) auto
  with pre show ?thesis by blast
qed

text \<open>
  Claim C9. The counter starts at \<open>maxPhilosophers * maxTimeToEat = 15\<close>. In \<^verbatim>\<open>eat\<close>, run
  against any answers, there is one \<^verbatim>\<open>wg.Done()\<close> for each accepted request, and every
  \<^verbatim>\<open>wg.Done()\<close> comes right after the unlock of the right and then of the left chopstick
  and right before the send of finished-eating. In the whole program, under every
  schedule: what a philosopher has done so far is the beginning of what \<^verbatim>\<open>eat\<close> does on the
  answers it has received, so each of its \<^verbatim>\<open>wg.Done()\<close> calls comes right after its two
  unlocks and its next action is the send of finished-eating; the counter is 15 less the
  number of \<^verbatim>\<open>wg.Done()\<close> calls made so far; and whenever the request channel is closed the
  counter is zero and exactly 15 calls have been made.
\<close>

theorem wg_counts_meals:
  "wg initial = 15 \<and> sint (maxPhilosophers * maxTimeToEat) = 15 \<and>
   wg_dones (fst (eat ph fb)) = admitted (fst (eat ph fb)) \<and>
   (\<forall>pre post. fst (eat ph fb) = pre @ WgDone # post \<longrightarrow>
      (\<exists>pre'. pre = pre' @ [Unlock (rightChopStick ph), Unlock (leftChopStick ph)]) \<and>
      (\<exists>q post'. post = SendRequest \<lparr>command = finishedEating, philosopher = q\<rparr> # post')) \<and>
   (i < 5 \<longrightarrow>
      (\<exists>rest. fst (eat (new_philosopher i)
                    (feedback_of (actions_of i (history (run ts initial))))) =
               actions_of i (history (run ts initial)) @ rest)) \<and>
   (\<forall>pre post. i < 5 \<and> actions_of i (history (run ts initial)) = pre @ WgDone # post \<longrightarrow>
      (\<exists>pre'. pre = pre' @ [Unlock (rightChopStick (new_philosopher i)),
                             Unlock (leftChopStick (new_philosopher i))]) \<and>
      (post = [] \<or>
       (\<exists>q post'. post = SendRequest \<lparr>command = finishedEating, philosopher = q\<rparr> # post'))) \<and>
   wg (run ts initial) = 15 - int (decrements (history (run ts initial))) \<and>
   (requestChanClosed (run ts initial) \<longrightarrow>
      wg (run ts initial) = 0 \<and> decrements (history (run ts initial)) = 15)"
proof -
  have init: "wg initial = 15 \<and> sint (maxPhilosophers * maxTimeToEat) = 15"
    by (simp add: initial_def maxPhilosophers_def maxTimeToEat_def)
  have once: "wg_dones (fst (eat ph fb)) = admitted (fst (eat ph fb))"
    by (simp add: eat_def eat_loop_wg_dones)
  have placed: "\<forall>pre post. fst (eat ph fb) = pre @ WgDone # post \<longrightarrow>
      (\<exists>pre'. pre = pre' @ [Unlock (rightChopStick ph), Unlock (leftChopStick ph)]) \<and>
      (\<exists>q post'. post = SendRequest \<lparr>command = finishedEating, philosopher = q\<rparr> # post')"
    using eat_loop_wg_done_placed [of "ph\<lparr>countEating := 0\<rparr>" fb]
    by (simp add: eat_def)
  have follows: "i < 5 \<longrightarrow>
      (\<exists>rest. fst (eat (new_philosopher i)
                    (feedback_of (actions_of i (history (run ts initial))))) =
               actions_of i (history (run ts initial)) @ rest)"
    using run_follows_eat [of i ts] by blast
  have placed_run: "\<forall>pre post. i < 5 \<and> actions_of i (history (run ts initial)) = pre @ WgDone # post \<longrightarrow>
      (\<exists>pre'. pre = pre' @ [Unlock (rightChopStick (new_philosopher i)),
                             Unlock (leftChopStick (new_philosopher i))]) \<and>
      (post = [] \<or>
       (\<exists>q post'. post = SendRequest \<lparr>command = finishedEating, philosopher = q\<rparr> # post'))"
    using run_wg_done_placed [of i ts] by blast
  have i: "inv (run ts initial)" using inv_initial by (rule inv_run)
  then have bal: "wg (run ts initial) = 15 - int (decrements (history (run ts initial)))"
    by (simp add: inv_def)
  from i have closed: "requestChanClosed (run ts initial) \<longrightarrow>
      wg (run ts initial) = 0 \<and> decrements (history (run ts initial)) = 15"
    by (auto simp: inv_def)
  from init once placed follows placed_run bal closed show ?thesis by blast
qed

lemma one_by_one_closes: "requestChanClosed (run one_by_one initial)"
  by code_simp

lemma eat_one_meal:
  "fst (eat (new_philosopher 0) [True]) =
     [SendRequest \<lparr>command = wantToEat, philosopher = new_philosopher 0\<rparr>,
      ReceiveFeedback True, Lock 0, Lock 1, PrintStarting 0 0, PrintFinishing 0 0,
      Unlock 1, Unlock 0] @ WgDone #
     [SendRequest \<lparr>command = finishedEating,
        philosopher = (new_philosopher 0)\<lparr>countEating := 1\<rparr>\<rparr>,
      SendRequest \<lparr>command = wantToEat,
        philosopher = (new_philosopher 0)\<lparr>countEating := 1\<rparr>\<rparr>]"
  by (simp add: eat_def new_philosopher_def word_sless_alt Let_def)

lemma first_meal_actions:
  "actions_of 0 (history (run first_meal initial)) =
     [SendRequest \<lparr>command = wantToEat, philosopher = new_philosopher 0\<rparr>,
      ReceiveFeedback True, Lock 0, Lock 1, PrintStarting 0 0, PrintFinishing 0 0,
      Unlock 1, Unlock 0] @ WgDone #
     [SendRequest \<lparr>command = finishedEating,
        philosopher = (new_philosopher 0)\<lparr>countEating := 1\<rparr>\<rparr>]"
  by code_simp

theorem wg_counts_meals_witness:
  "requestChanClosed (run one_by_one initial) \<and>
   wg (run one_by_one initial) = 0 \<and>
   decrements (history (run one_by_one initial)) = 15 \<and>
   (\<exists>pre post. fst (eat (new_philosopher 0) [True]) = pre @ WgDone # post \<and>
      (\<exists>pre'. pre = pre' @ [Unlock (rightChopStick (new_philosopher 0)),
                             Unlock (leftChopStick (new_philosopher 0))]) \<and>
      (\<exists>q post'. post = SendRequest \<lparr>command = finishedEating, philosopher = q\<rparr> # post')) \<and>
   (0 :: nat) < 5 \<and>
   (\<exists>pre post. actions_of 0 (history (run first_meal initial)) = pre @ WgDone # post \<and>
      (\<exists>pre'. pre = pre' @ [Unlock (rightChopStick (new_philosopher 0)),
                             Unlock (leftChopStick (new_philosopher 0))]) \<and>
      (post = [] \<or>
       (\<exists>q post'. post = SendRequest \<lparr>command = finishedEating, philosopher = q\<rparr> # post')))"
proof -
  have i: "(0 :: nat) < 5" by simp
  from wg_counts_meals [of "new_philosopher 0" "[True]" 0 one_by_one] one_by_one_closes
  have closed: "wg (run one_by_one initial) = 0 \<and>
      decrements (history (run one_by_one initial)) = 15"
    by blast
  from wg_counts_meals [of "new_philosopher 0" "[True]" 0 first_meal] eat_one_meal
  have alone: "\<exists>pre post. fst (eat (new_philosopher 0) [True]) = pre @ WgDone # post \<and>
      (\<exists>pre'. pre = pre' @ [Unlock (rightChopStick (new_philosopher 0)),
                             Unlock (leftChopStick (new_philosopher 0))]) \<and>
      (\<exists>q post'. post = SendRequest \<lparr>command = finishedEating, philosopher = q\<rparr> # post')"
    by blast
  from wg_counts_meals [of "new_philosopher 0" "[True]" 0 first_meal] first_meal_actions i
  have together: "\<exists>pre post. actions_of 0 (history (run first_meal initial)) = pre @ WgDone # post \<and>
      (\<exists>pre'. pre = pre' @ [Unlock (rightChopStick (new_philosopher 0)),
                             Unlock (leftChopStick (new_philosopher 0))]) \<and>
      (post = [] \<or>
       (\<exists>q post'. post = SendRequest \<lparr>command = finishedEating, philosopher = q\<rparr> # post'))"
    by blast
  from one_by_one_closes closed alone i together show ?thesis by blast
qed

subsection \<open>The count of meals in the whole program\<close>

text \<open>
  After a panic or the return of \<^verbatim>\<open>main\<close> the state stays as it is, whatever the
  schedule.
\<close>

lemma run_after_end: "panicked s \<or> main s = exited \<Longrightarrow> run ts s = s"
  by (induction ts) (simp_all add: step_def)





























end
